theory Spec2Isabelle
  imports Main "HOL-Library.AList"
begin

section \<open>Values, keys and entries (cache.types.ts)\<close>

text \<open>
  The payload type \<open>T\<close> of the cache is any JavaScript value. The values modelled here are
  \<open>undefined\<close>, \<open>null\<close>, booleans, integral numbers, strings, arrays and plain
  objects (a list of own properties in insertion order; a JavaScript object never has two
  properties of the same name). Numbers are integers: fractions, \<open>NaN\<close> and the infinities
  are outside the model, and so are clock values and durations that are not integral.
\<close>

datatype jsval =
    Undefined
  | Null
  | Bool bool
  | Num int
  | Str string
  | Arr "jsval list"
  | Obj "(string \<times> jsval) list"

text \<open>JavaScript truthiness, as \<open>if (x)\<close> and \<open>!x\<close> test it.\<close>

fun truthy :: "jsval \<Rightarrow> bool" where
  "truthy Undefined = False"
| "truthy Null = False"
| "truthy (Bool b) = b"
| "truthy (Num n) = (n \<noteq> 0)"
| "truthy (Str s) = (s \<noteq> [])"
| "truthy (Arr xs) = True"
| "truthy (Obj kvs) = True"

text \<open>\<open>CacheKey = (string | number)[]\<close>: a segment is a string or a number.\<close>

datatype seg = SegStr string | SegNum int

type_synonym CacheKey = "seg list"

type_synonym time = int

record CacheEntry =
  data :: jsval
  timestamp :: time
  staleTime :: int
  cacheTime :: int

record SetCacheParams =
  key :: CacheKey
  sdata :: jsval
  sstaleTime :: "int option"
  scacheTime :: "int option"

record CacheEntryResult =
  rdata :: jsval
  stale :: bool

record CacheOptions =
  gcInterval :: "int option"
  defaultStaleTime :: "int option"
  defaultCacheTime :: "int option"
  debug :: "bool option"

text \<open>
  \<open>cache.constants.ts\<close> is not among the sources; the three constants it exports are
  taken as a parameter of the stores.
\<close>

record CacheConstants =
  DEFAULT_GC_INTERVAL :: int
  DEFAULT_STALE_TIME :: int
  DEFAULT_CACHE_TIME :: int

datatype error = TypeError | SyntaxError | Thrown jsval

text \<open>\<open>a ?? b ?? c\<close> with \<open>c\<close> always defined.\<close>

definition nullish :: "'a option \<Rightarrow> 'a option \<Rightarrow> 'a \<Rightarrow> 'a" where
  "nullish a b c = (case a of Some x \<Rightarrow> x | None \<Rightarrow> (case b of Some y \<Rightarrow> y | None \<Rightarrow> c))"

text \<open>The entry both stores build in \<open>set\<close>; \<open>now\<close> is the value of \<open>Date.now()\<close>.\<close>

definition makeEntry :: "CacheConstants \<Rightarrow> CacheOptions \<Rightarrow> SetCacheParams \<Rightarrow> time \<Rightarrow> CacheEntry" where
  "makeEntry c opts p now =
     \<lparr> data = sdata p,
       timestamp = now,
       staleTime = nullish (sstaleTime p) (defaultStaleTime opts) (DEFAULT_STALE_TIME c),
       cacheTime = nullish (scacheTime p) (defaultCacheTime opts) (DEFAULT_CACHE_TIME c) \<rparr>"

text \<open>\<open>isStale\<close>, the same in both stores: \<open>Date.now() - entry.timestamp > entry.staleTime\<close>.\<close>

definition isStale :: "time \<Rightarrow> CacheEntry \<Rightarrow> bool" where
  "isStale now entry = (now - timestamp entry > staleTime entry)"

text \<open>The test of \<open>cleanUp\<close>: \<open>currentTime - entry.timestamp > entry.cacheTime\<close>.\<close>

definition isExpired :: "time \<Rightarrow> CacheEntry \<Rightarrow> bool" where
  "isExpired currentTime entry = (currentTime - timestamp entry > cacheTime entry)"

definition miss :: CacheEntryResult where
  "miss = \<lparr> rdata = Null, stale = False \<rparr>"

section \<open>The in-memory store (cache-store-in-memory.ts)\<close>

text \<open>
  \<open>CacheStoreMap = Map<string | number, CacheStoreMap | CacheEntry>\<close>. A JavaScript
  \<open>Map\<close> keeps its keys in insertion order and holds each key once; it is an association
  list here, read with \<open>map_of\<close>, written with \<open>AList.update\<close> (in place when the key is
  there, at the end otherwise) and \<open>AList.delete\<close>. Map keys are compared by
  SameValueZero, so the number \<open>1\<close> and the string \<open>"1"\<close> are different keys.
\<close>

datatype node = MapN "(seg \<times> node) list" | EntryN CacheEntry

type_synonym CacheStoreMap = "(seg \<times> node) list"

text \<open>The reserved key under which \<open>set\<close> attaches the entry of a node.\<close>

definition marker :: seg where
  "marker = SegStr ''cacheEntry''"

text \<open>
  \<open>getNode\<close>: the loop returns \<open>undefined\<close> as soon as \<open>current\<close> is not a
  \<open>Map\<close> (an entry, or the \<open>undefined\<close> of a missing key) and a segment is left.
\<close>

fun getNode :: "node option \<Rightarrow> CacheKey \<Rightarrow> node option" where
  "getNode current [] = current"
| "getNode current (part # rest) =
     (case current of
        Some (MapN m) \<Rightarrow> getNode (map_of m part) rest
      | _ \<Rightarrow> None)"

text \<open>
  \<open>getOrCreateNode(map, key).set("cacheEntry", entry)\<close>, the two steps of \<open>set\<close> that
  mutate the tree through the reference \<open>getOrCreateNode\<close> returns: the walk creates an
  empty \<open>Map\<close> for each missing segment, and the entry is put under the marker of the
  node reached. The cast \<open>as CacheStoreMap\<close> is unchecked: when the walk steps onto an
  entry object, the next \<open>current.has\<close> (or the final \<open>node.set\<close>) throws a TypeError.
  That happens before anything was created, so the tree is then unchanged.
\<close>

fun getOrCreateNode_set :: "CacheStoreMap \<Rightarrow> CacheKey \<Rightarrow> CacheEntry \<Rightarrow> error + CacheStoreMap" where
  "getOrCreateNode_set m [] entry = Inr (AList.update marker (EntryN entry) m)"
| "getOrCreateNode_set m (part # rest) entry =
     (case map_of m part of
        None \<Rightarrow>
          (case getOrCreateNode_set [] rest entry of
             Inl e \<Rightarrow> Inl e
           | Inr c \<Rightarrow> Inr (AList.update part (MapN c) m))
      | Some (MapN child) \<Rightarrow>
          (case getOrCreateNode_set child rest entry of
             Inl e \<Rightarrow> Inl e
           | Inr c \<Rightarrow> Inr (AList.update part (MapN c) m))
      | Some (EntryN x) \<Rightarrow> Inl TypeError)"

text \<open>\<open>set\<close>: an empty key is logged and ignored.\<close>

definition mem_set ::
  "CacheConstants \<Rightarrow> CacheOptions \<Rightarrow> CacheStoreMap \<Rightarrow> SetCacheParams \<Rightarrow> time \<Rightarrow> error + CacheStoreMap" where
  "mem_set c opts store p now =
     (if key p = [] then Inr store
      else getOrCreateNode_set store (key p) (makeEntry c opts p now))"

text \<open>
  \<open>get\<close>. What sits under the marker is read as an entry without a check: when it is a
  \<open>Map\<close> (a key with the marker as a segment was stored below), \<open>entry.data\<close> is
  \<open>undefined\<close> and the comparison of \<open>isStale\<close> is on \<open>NaN\<close>, hence false.
\<close>

definition mem_get :: "CacheStoreMap \<Rightarrow> CacheKey \<Rightarrow> time \<Rightarrow> CacheEntryResult" where
  "mem_get store k now =
     (case getNode (Some (MapN store)) k of
        Some (MapN m) \<Rightarrow>
          (case map_of m marker of
             None \<Rightarrow> miss
           | Some (EntryN entry) \<Rightarrow> \<lparr> rdata = data entry, stale = isStale now entry \<rparr>
           | Some (MapN x) \<Rightarrow> \<lparr> rdata = Undefined, stale = False \<rparr>)
      | _ \<Rightarrow> miss)"

text \<open>
  \<open>invalidate\<close>: \<open>getNode(store, key.slice(0, -1))\<close>, then \<open>delete(lastKey)\<close> on that
  node when it is a \<open>Map\<close>. With an empty key \<open>lastKey\<close> is \<open>undefined\<close>, which is
  no key of the root, and nothing is deleted.
\<close>

fun mem_invalidate :: "CacheStoreMap \<Rightarrow> CacheKey \<Rightarrow> CacheStoreMap" where
  "mem_invalidate m [] = m"
| "mem_invalidate m [lastKey] = AList.delete lastKey m"
| "mem_invalidate m (part # rest) =
     (case map_of m part of
        Some (MapN child) \<Rightarrow> AList.update part (MapN (mem_invalidate child rest)) m
      | _ \<Rightarrow> m)"

text \<open>
  \<open>cleanUpNode\<close>: the loop over the pairs of a \<open>Map\<close>; a value that is a \<open>Map\<close> is
  cleaned recursively, any other value is taken for an entry and deleted when expired.
  Deleting the current pair during the iteration of a JavaScript \<open>Map\<close> skips nothing.
\<close>

fun cleanUpNode :: "CacheStoreMap \<Rightarrow> time \<Rightarrow> CacheStoreMap" where
  "cleanUpNode [] currentTime = []"
| "cleanUpNode ((k, MapN child) # rest) currentTime =
     (k, MapN (cleanUpNode child currentTime)) # cleanUpNode rest currentTime"
| "cleanUpNode ((k, EntryN entry) # rest) currentTime =
     (if isExpired currentTime entry then cleanUpNode rest currentTime
      else (k, EntryN entry) # cleanUpNode rest currentTime)"

definition mem_cleanUp :: "CacheStoreMap \<Rightarrow> time \<Rightarrow> CacheStoreMap" where
  "mem_cleanUp store now = cleanUpNode store now"

section \<open>The store over a flat key-value storage (cache-store-mmkv.ts)\<close>

text \<open>
  The decimal form of an integer, as \<open>Array.prototype.join\<close> writes a number segment
  (integers of magnitude below \<open>10^21\<close>; larger ones print with an exponent).
\<close>

definition digit :: "nat \<Rightarrow> char" where
  "digit d = ''0123456789'' ! d"

function string_of_nat :: "nat \<Rightarrow> string" where
  "string_of_nat n = (if n < 10 then [digit n] else string_of_nat (n div 10) @ [digit (n mod 10)])"
  by pat_completeness auto
termination
  by (relation "measure id") auto

definition segString :: "seg \<Rightarrow> string" where
  "segString s =
     (case s of
        SegStr x \<Rightarrow> x
      | SegNum n \<Rightarrow> (if n < 0 then CHR ''-'' # string_of_nat (nat (- n)) else string_of_nat (nat n)))"

fun join :: "string \<Rightarrow> string list \<Rightarrow> string" where
  "join sep [] = []"
| "join sep [x] = x"
| "join sep (x # y # ys) = x @ sep @ join sep (y # ys)"

text \<open>\<open>keyToString\<close>: \<open>key.join(":")\<close>.\<close>

definition keyToString :: "CacheKey \<Rightarrow> string" where
  "keyToString k = join '':'' (map segString k)"

text \<open>
  The string an array becomes as an operand of \<open>+\<close>: \<open>Array.prototype.toString\<close>, which
  is \<open>join(",")\<close>.
\<close>

definition arrayToString :: "CacheKey \<Rightarrow> string" where
  "arrayToString k = join '','' (map segString k)"

text \<open>\<open>String.prototype.startsWith\<close>.\<close>

fun startsWith :: "string \<Rightarrow> string \<Rightarrow> bool" where
  "startsWith s [] = True"
| "startsWith [] (c # cs) = False"
| "startsWith (d # ds) (c # cs) = (d = c \<and> startsWith ds cs)"

text \<open>
  What \<open>JSON.stringify\<close> followed by \<open>JSON.parse\<close> makes of a value: an \<open>undefined\<close>
  array element comes back as \<open>null\<close>, a property whose value is \<open>undefined\<close> is left
  out. A value is JSON-representable when no \<open>undefined\<close> occurs in it.
\<close>

fun json_roundtrip :: "jsval \<Rightarrow> jsval"
  and json_elems :: "jsval list \<Rightarrow> jsval list"
  and json_props :: "(string \<times> jsval) list \<Rightarrow> (string \<times> jsval) list" where
  "json_roundtrip (Arr xs) = Arr (json_elems xs)"
| "json_roundtrip (Obj kvs) = Obj (json_props kvs)"
| "json_roundtrip v = v"
| "json_elems [] = []"
| "json_elems (x # xs) = (if x = Undefined then Null else json_roundtrip x) # json_elems xs"
| "json_props [] = []"
| "json_props ((k, v) # kvs) =
     (if v = Undefined then json_props kvs else (k, json_roundtrip v) # json_props kvs)"

fun json_representable :: "jsval \<Rightarrow> bool"
  and json_representables :: "jsval list \<Rightarrow> bool"
  and json_representable_props :: "(string \<times> jsval) list \<Rightarrow> bool" where
  "json_representable Undefined = False"
| "json_representable (Arr xs) = json_representables xs"
| "json_representable (Obj kvs) = json_representable_props kvs"
| "json_representable v = True"
| "json_representables [] = True"
| "json_representables (x # xs) = (json_representable x \<and> json_representables xs)"
| "json_representable_props [] = True"
| "json_representable_props ((k, v) # kvs) = (json_representable v \<and> json_representable_props kvs)"

text \<open>
  A persisted string is represented by how \<open>JSON.parse\<close> reads it back as an entry:
  \<open>Stringified e\<close> is the text that parses to the entry \<open>e\<close>, and \<open>Raw s\<close> is the
  string \<open>s\<close> when \<open>s\<close> is not JSON text, on which \<open>JSON.parse\<close> throws a
  SyntaxError. Strings that are JSON text for something other than an entry are outside
  the model.
\<close>

datatype stored = Stringified CacheEntry | Raw string

definition JSON_stringify :: "CacheEntry \<Rightarrow> stored" where
  "JSON_stringify entry = Stringified (entry\<lparr> data := json_roundtrip (data entry) \<rparr>)"

definition JSON_parse :: "stored \<Rightarrow> error + CacheEntry" where
  "JSON_parse t = (case t of Stringified e \<Rightarrow> Inr e | Raw s \<Rightarrow> Inl SyntaxError)"

text \<open>\<open>!storedValue\<close> on a string: only the empty string is falsy.\<close>

definition emptyText :: "stored \<Rightarrow> bool" where
  "emptyText t = (case t of Stringified e \<Rightarrow> False | Raw s \<Rightarrow> s = [])"

text \<open>
  The MMKV instance: physical keys to strings. \<open>set\<close> is \<open>AList.update\<close>,
  \<open>getString\<close> is \<open>map_of\<close>, \<open>getAllKeys\<close> is \<open>map fst\<close>, \<open>delete\<close> is
  \<open>AList.delete\<close>.
\<close>

type_synonym MMKV = "(string \<times> stored) list"

definition mmkv_set :: "CacheConstants \<Rightarrow> CacheOptions \<Rightarrow> MMKV \<Rightarrow> SetCacheParams \<Rightarrow> time \<Rightarrow> MMKV" where
  "mmkv_set c opts store p now =
     (if key p = [] then store
      else AList.update (keyToString (key p)) (JSON_stringify (makeEntry c opts p now)) store)"

definition mmkv_get :: "MMKV \<Rightarrow> CacheKey \<Rightarrow> time \<Rightarrow> error + CacheEntryResult" where
  "mmkv_get store k now =
     (case map_of store (keyToString k) of
        None \<Rightarrow> Inr miss
      | Some storedValue \<Rightarrow>
          if emptyText storedValue then Inr miss
          else (case JSON_parse storedValue of
                  Inl e \<Rightarrow> Inl e
                | Inr entry \<Rightarrow> Inr \<lparr> rdata = data entry, stale = isStale now entry \<rparr>))"

text \<open>
  \<open>invalidate\<close>. The exact match is on \<open>keyToString(path)\<close>; the hierarchical match is
  \<open>key.startsWith(path + ":")\<close>, where \<open>path\<close> is the array itself.
\<close>

definition keysToDelete :: "MMKV \<Rightarrow> CacheKey \<Rightarrow> string list" where
  "keysToDelete store path =
     filter (\<lambda>k. k = keyToString path \<or> startsWith k (arrayToString path @ '':''))
       (map fst store)"

definition mmkv_invalidate :: "MMKV \<Rightarrow> CacheKey \<Rightarrow> MMKV" where
  "mmkv_invalidate store path = foldl (\<lambda>s k. AList.delete k s) store (keysToDelete store path)"

text \<open>
  \<open>cleanUp\<close>: the loop over the keys read at the start. A record that does not parse
  makes \<open>JSON.parse\<close> throw out of the loop, and the deletions made so far stay.
\<close>

fun cleanUpLoop :: "string list \<Rightarrow> MMKV \<Rightarrow> time \<Rightarrow> error option \<times> MMKV" where
  "cleanUpLoop [] store currentTime = (None, store)"
| "cleanUpLoop (keyStr # ks) store currentTime =
     (case map_of store keyStr of
        None \<Rightarrow> cleanUpLoop ks store currentTime
      | Some storedValue \<Rightarrow>
          if emptyText storedValue then cleanUpLoop ks store currentTime
          else (case JSON_parse storedValue of
                  Inl e \<Rightarrow> (Some e, store)
                | Inr entry \<Rightarrow>
                    if isExpired currentTime entry
                    then cleanUpLoop ks (AList.delete keyStr store) currentTime
                    else cleanUpLoop ks store currentTime))"

definition mmkv_cleanUp :: "MMKV \<Rightarrow> time \<Rightarrow> error option \<times> MMKV" where
  "mmkv_cleanUp store now = cleanUpLoop (map fst store) store now"

section \<open>The orchestrator (query-with-cache.ts)\<close>

text \<open>
  \<open>isEqual\<close> is the package fast-deep-equal: identical values are equal, two arrays are
  equal when they have the same length and equal elements, two objects when they have
  the same number of own properties, every property name of the first is one of the
  second, and the values under each name are equal.
\<close>

fun isEqual :: "jsval \<Rightarrow> jsval \<Rightarrow> bool" where
  "isEqual (Arr xs) (Arr ys) = list_all2 isEqual xs ys"
| "isEqual (Obj as) (Obj bs) =
     (length as = length bs \<and>
      list_all (\<lambda>(k, v). case map_of bs k of None \<Rightarrow> False | Some w \<Rightarrow> isEqual v w) as)"
| "isEqual a b = (a = b)"

text \<open>
  The \<open>CacheStore\<close> interface, over any representation \<open>'s\<close> of a store's contents.
  A method takes the contents and the clock and gives the contents back; \<open>Some e\<close> or
  \<open>Inl e\<close> is the exception \<open>e\<close> thrown.
\<close>

record 's CacheStore =
  cs_set :: "'s \<Rightarrow> SetCacheParams \<Rightarrow> time \<Rightarrow> error option \<times> 's"
  cs_get :: "'s \<Rightarrow> CacheKey \<Rightarrow> time \<Rightarrow> error + CacheEntryResult"
  cs_invalidate :: "'s \<Rightarrow> CacheKey \<Rightarrow> 's"
  cs_cleanUp :: "'s \<Rightarrow> time \<Rightarrow> error option \<times> 's"

definition CacheStoreInMemory :: "CacheConstants \<Rightarrow> CacheOptions \<Rightarrow> CacheStoreMap CacheStore" where
  "CacheStoreInMemory c opts =
     \<lparr> cs_set = (\<lambda>s p now. case mem_set c opts s p now of Inl e \<Rightarrow> (Some e, s) | Inr s' \<Rightarrow> (None, s')),
       cs_get = (\<lambda>s k now. Inr (mem_get s k now)),
       cs_invalidate = mem_invalidate,
       cs_cleanUp = (\<lambda>s now. (None, mem_cleanUp s now)) \<rparr>"

definition CacheStoreMMKV :: "CacheConstants \<Rightarrow> CacheOptions \<Rightarrow> MMKV CacheStore" where
  "CacheStoreMMKV c opts =
     \<lparr> cs_set = (\<lambda>s p now. (None, mmkv_set c opts s p now)),
       cs_get = mmkv_get,
       cs_invalidate = mmkv_invalidate,
       cs_cleanUp = mmkv_cleanUp \<rparr>"

text \<open>
  A call of \<open>queryWithCache\<close>. \<open>queryFn\<close> is how the promise of the fetch settles
  (\<open>Inr\<close> resolved, \<open>Inl\<close> rejected); \<open>onIsFetching\<close> and \<open>onError\<close> say whether
  the optional callback was supplied. The calls the orchestrator makes are recorded in
  order; the callbacks themselves return normally.
\<close>

record QueryWithCacheParams =
  queryKey :: CacheKey
  cacheExpirationTime :: "int option"
  cacheStoredTime :: "int option"
  queryFn :: "error + jsval"
  onIsFetching :: bool
  onError :: bool

datatype event =
    OnData jsval
  | OnIsFetching bool
  | OnError error
  | QueryFn
  | CacheSet SetCacheParams

record 's Run =
  events :: "event list"
  completion :: "error option"
  final :: 's

text \<open>The \<open>catch\<close> and \<open>finally\<close> blocks, after the calls \<open>sofar\<close> already made.\<close>

definition catchFinally ::
  "QueryWithCacheParams \<Rightarrow> bool \<Rightarrow> event list \<Rightarrow> error \<Rightarrow> 's \<Rightarrow> 's Run" where
  "catchFinally p shouldCallIsFetching sofar e s =
     (let fin = (if shouldCallIsFetching then [OnIsFetching False] else [])
      in if onError p
         then \<lparr> events = sofar @ [OnError e] @ fin, completion = None, final = s \<rparr>
         else \<lparr> events = sofar @ fin, completion = Some e, final = s \<rparr>)"

text \<open>
  \<open>queryWithCache\<close>, run alone on the store contents \<open>s\<close>: \<open>t0\<close> is the clock at
  \<open>cache.get\<close>, \<open>t1\<close> the clock at \<open>cache.set\<close>, after the fetch settled.
\<close>

definition queryWithCache ::
  "'s CacheStore \<Rightarrow> QueryWithCacheParams \<Rightarrow> 's \<Rightarrow> time \<Rightarrow> time \<Rightarrow> 's Run" where
  "queryWithCache cache p s t0 t1 =
     (case cs_get cache s (queryKey p) t0 of
        Inl e \<Rightarrow> \<lparr> events = [], completion = Some e, final = s \<rparr>
      | Inr cacheEntry \<Rightarrow>
          let shouldCallIsFetching = (\<not> truthy (rdata cacheEntry) \<and> onIsFetching p);
              delivered = (if truthy (rdata cacheEntry) then [OnData (rdata cacheEntry)] else [])
          in if truthy (rdata cacheEntry) \<and> \<not> stale cacheEntry
             then \<lparr> events = delivered, completion = None, final = s \<rparr>
             else
               let started = delivered
                     @ (if shouldCallIsFetching then [OnIsFetching True] else []) @ [QueryFn]
               in (case queryFn p of
                     Inr result \<Rightarrow>
                       let changed = (if \<not> isEqual result (rdata cacheEntry) then [OnData result] else []);
                           params = \<lparr> key = queryKey p, sdata = result,
                                      sstaleTime = cacheExpirationTime p,
                                      scacheTime = cacheStoredTime p \<rparr>
                       in (case cs_set cache s params t1 of
                             (None, s') \<Rightarrow>
                               \<lparr> events = started @ changed @ [CacheSet params]
                                   @ (if shouldCallIsFetching then [OnIsFetching False] else []),
                                 completion = None, final = s' \<rparr>
                           | (Some e, s') \<Rightarrow>
                               catchFinally p shouldCallIsFetching
                                 (started @ changed @ [CacheSet params]) e s')
                   | Inl e \<Rightarrow> catchFinally p shouldCallIsFetching started e s))"

section \<open>Observers, invariants and example data\<close>

text \<open>The calls made after the fetch was invoked.\<close>

definition afterFetch :: "event list \<Rightarrow> event list" where
  "afterFetch evs = tl (dropWhile (\<lambda>e. e \<noteq> QueryFn) evs)"

text \<open>
  What \<open>get\<close> looks at: the value under the marker of the node that \<open>getNode\<close>
  reaches, and the entry stored at a key when that value is one.
\<close>

definition entryAt :: "node option \<Rightarrow> CacheKey \<Rightarrow> node option" where
  "entryAt current k = (case getNode current k of Some (MapN n) \<Rightarrow> map_of n marker | _ \<Rightarrow> None)"

definition mem_entry :: "CacheStoreMap \<Rightarrow> CacheKey \<Rightarrow> CacheEntry option" where
  "mem_entry store k = (case entryAt (Some (MapN store)) k of Some (EntryN e) \<Rightarrow> Some e | _ \<Rightarrow> None)"

text \<open>
  The shape of every tree the in-memory store builds: each \<open>Map\<close> holds a key once, and
  a value that is not a \<open>Map\<close> sits under the marker. The empty store has it and
  \<open>set\<close>, \<open>invalidate\<close> and \<open>cleanUp\<close> keep it (lemmas \<open>mem_set_inv\<close>,
  \<open>mem_invalidate_inv\<close>, \<open>mem_cleanUp_inv\<close>).
\<close>

fun store_inv :: "CacheStoreMap \<Rightarrow> bool" where
  "store_inv [] = True"
| "store_inv ((k, MapN child) # rest) = (k \<notin> fst ` set rest \<and> store_inv child \<and> store_inv rest)"
| "store_inv ((k, EntryN e) # rest) = (k = marker \<and> k \<notin> fst ` set rest \<and> store_inv rest)"

text \<open>
  The flat store seen through its keys: the entry persisted for a key, and the records
  that \<open>get\<close> and \<open>cleanUp\<close> can read (a serialized entry, or the empty string,
  which both skip).
\<close>

definition mmkv_entry :: "MMKV \<Rightarrow> CacheKey \<Rightarrow> CacheEntry option" where
  "mmkv_entry store k = (case map_of store (keyToString k) of Some (Stringified e) \<Rightarrow> Some e | _ \<Rightarrow> None)"

definition readable :: "stored \<Rightarrow> bool" where
  "readable t = (case t of Stringified e \<Rightarrow> True | Raw r \<Rightarrow> r = [])"

text \<open>What a sweep at time \<open>now\<close> leaves of an entry, and of a value of a \<open>Map\<close>.\<close>

definition unexpired :: "time \<Rightarrow> CacheEntry option \<Rightarrow> CacheEntry option" where
  "unexpired now x = (case x of None \<Rightarrow> None | Some e \<Rightarrow> if isExpired now e then None else Some e)"

fun cleanUpValue :: "time \<Rightarrow> node option \<Rightarrow> node option" where
  "cleanUpValue t None = None"
| "cleanUpValue t (Some (MapN c)) = Some (MapN (cleanUpNode c t))"
| "cleanUpValue t (Some (EntryN e)) = (if isExpired t e then None else Some (EntryN e))"

fun node_inv :: "node option \<Rightarrow> bool" where
  "node_inv (Some (MapN m)) = store_inv m"
| "node_inv x = True"

text \<open>Example data: a store with one entry at \<open>["test"]\<close>, written at time 0.\<close>

definition exConstants :: CacheConstants where
  "exConstants = \<lparr> DEFAULT_GC_INTERVAL = 60000, DEFAULT_STALE_TIME = 5000, DEFAULT_CACHE_TIME = 30000 \<rparr>"

definition exOptions :: CacheOptions where
  "exOptions = \<lparr> gcInterval = None, defaultStaleTime = None, defaultCacheTime = None, debug = None \<rparr>"

definition exStore :: "jsval \<Rightarrow> CacheStoreMap" where
  "exStore d = [(SegStr ''test'', MapN [(SegStr ''cacheEntry'',
      EntryN \<lparr> data = d, timestamp = 0, staleTime = 1000, cacheTime = 1000 \<rparr>)])]"

definition exQuery :: "error + jsval \<Rightarrow> bool \<Rightarrow> bool \<Rightarrow> QueryWithCacheParams" where
  "exQuery settles f e =
     \<lparr> queryKey = [SegStr ''test''], cacheExpirationTime = None, cacheStoredTime = None,
       queryFn = settles, onIsFetching = f, onError = e \<rparr>"

definition exMem :: "CacheStoreMap CacheStore" where
  "exMem = CacheStoreInMemory exConstants exOptions"

text \<open>A tree with entries at \<open>["a"]\<close> and \<open>["a", "b"]\<close>.\<close>

definition exTree :: CacheStoreMap where
  "exTree = [(SegStr ''a'', MapN [(SegStr ''cacheEntry'',
                EntryN \<lparr> data = Str ''1'', timestamp = 0, staleTime = 1000, cacheTime = 1000 \<rparr>),
              (SegStr ''b'', MapN [(SegStr ''cacheEntry'',
                EntryN \<lparr> data = Str ''2'', timestamp = 0, staleTime = 1000, cacheTime = 1000 \<rparr>)])])]"

text \<open>
  The same two entries, at \<open>["a", "b"]\<close> and \<open>["a", "b", "c"]\<close>, in each store, and a
  flat storage with a record that is not JSON text.
\<close>

definition exFlat :: MMKV where
  "exFlat = [(''a:b'', Stringified \<lparr> data = Str ''2'', timestamp = 0, staleTime = 1000, cacheTime = 1000 \<rparr>),
             (''a:b:c'', Stringified \<lparr> data = Str ''3'', timestamp = 0, staleTime = 1000, cacheTime = 2000 \<rparr>)]"

definition exDeep :: CacheStoreMap where
  "exDeep = [(SegStr ''a'', MapN [(SegStr ''b'', MapN [(SegStr ''cacheEntry'',
                EntryN \<lparr> data = Str ''2'', timestamp = 0, staleTime = 1000, cacheTime = 1000 \<rparr>),
              (SegStr ''c'', MapN [(SegStr ''cacheEntry'',
                EntryN \<lparr> data = Str ''3'', timestamp = 0, staleTime = 1000, cacheTime = 2000 \<rparr>)])])])]"

definition exCorrupt :: MMKV where
  "exCorrupt = [(''bad'', Raw ''{''),
                (''old'', Stringified \<lparr> data = Str ''1'', timestamp = 0, staleTime = 1000, cacheTime = 1000 \<rparr>)]"

section \<open>Lemmas on the in-memory tree\<close>

lemma mem_get_entryAt:
  "mem_get store k now =
     (case entryAt (Some (MapN store)) k of
        None \<Rightarrow> miss
      | Some (EntryN entry) \<Rightarrow> \<lparr> rdata = data entry, stale = isStale now entry \<rparr>
      | Some (MapN x) \<Rightarrow> \<lparr> rdata = Undefined, stale = False \<rparr>)"
  by (simp add: mem_get_def entryAt_def split: option.splits node.splits)

lemma store_inv_distinct: "store_inv m \<Longrightarrow> distinct (map fst m)"
  by (induction m rule: store_inv.induct) auto

lemma store_inv_child: "store_inv m \<Longrightarrow> map_of m k = Some (MapN c) \<Longrightarrow> store_inv c"
  by (induction m rule: store_inv.induct) (auto split: if_splits)

lemma store_inv_entry: "store_inv m \<Longrightarrow> map_of m k = Some (EntryN e) \<Longrightarrow> k = marker"
  by (induction m rule: store_inv.induct) (auto split: if_splits)

lemma fst_set_update: "fst ` set (AList.update k v m) = insert k (fst ` set m)"
  by (induction m) auto

lemma store_inv_update_Map:
  "store_inv m \<Longrightarrow> store_inv c \<Longrightarrow> store_inv (AList.update k (MapN c) m)"
  by (induction m rule: store_inv.induct) (auto simp: fst_set_update)

lemma store_inv_update_Entry:
  "store_inv m \<Longrightarrow> store_inv (AList.update marker (EntryN e) m)"
  by (induction m rule: store_inv.induct) (auto simp: fst_set_update)

lemma store_inv_delete: "store_inv m \<Longrightarrow> store_inv (AList.delete k m)"
  by (induction m rule: store_inv.induct) (auto simp: AList.delete_eq)

lemma getNode_None [simp]: "getNode None k = None"
  by (cases k) auto

lemma entryAt_None [simp]: "entryAt None k = None"
  by (simp add: entryAt_def)

lemma entryAt_Nil [simp]: "entryAt (Some (MapN m)) [] = map_of m marker"
  by (simp add: entryAt_def)

lemma entryAt_Cons [simp]: "entryAt (Some (MapN m)) (part # rest) = entryAt (map_of m part) rest"
  by (simp add: entryAt_def)

lemma entryAt_Entry [simp]: "entryAt (Some (EntryN e)) k = None"
  by (cases k) (auto simp: entryAt_def)

lemma entryAt_empty [simp]: "entryAt (Some (MapN [])) k = None"
  by (cases k) auto

text \<open>On a key without the marker the walk of \<open>set\<close> meets only \<open>Map\<close>s and cannot throw.\<close>

lemma getOrCreateNode_set_succeeds:
  "store_inv m \<Longrightarrow> marker \<notin> set k \<Longrightarrow> \<exists>m'. getOrCreateNode_set m k e = Inr m'"
proof (induction k arbitrary: m)
  case Nil
  then show ?case by simp
next
  case (Cons part rest)
  show ?case
  proof (cases "map_of m part")
    case None
    with Cons.IH[of "[]"] Cons.prems show ?thesis by auto
  next
    case (Some n)
    show ?thesis
    proof (cases n)
      case (MapN child)
      with Some Cons.prems have "store_inv child" by (auto dest: store_inv_child)
      with Cons.IH[of child] Cons.prems Some MapN show ?thesis by auto
    next
      case (EntryN x)
      with Some Cons.prems have "part = marker" by (auto dest: store_inv_entry)
      with Cons.prems show ?thesis by simp
    qed
  qed
qed

lemma getOrCreateNode_set_inv:
  "store_inv m \<Longrightarrow> getOrCreateNode_set m k e = Inr m' \<Longrightarrow> store_inv m'"
proof (induction k arbitrary: m m')
  case Nil
  then show ?case by (auto simp: store_inv_update_Entry)
next
  case (Cons part rest)
  show ?case
  proof (cases "map_of m part")
    case None
    with Cons.prems obtain c where
      c: "getOrCreateNode_set [] rest e = Inr c" "m' = AList.update part (MapN c) m"
      by (auto split: sum.splits)
    from Cons.IH[of "[]" c] c have "store_inv c" by simp
    with c Cons.prems show ?thesis by (simp add: store_inv_update_Map)
  next
    case (Some n)
    show ?thesis
    proof (cases n)
      case (MapN child)
      with Some Cons.prems obtain c where
        c: "getOrCreateNode_set child rest e = Inr c" "m' = AList.update part (MapN c) m"
        by (auto split: sum.splits)
      from Some MapN Cons.prems have "store_inv child" by (auto dest: store_inv_child)
      with Cons.IH[of child c] c have "store_inv c" by simp
      with c Cons.prems show ?thesis by (simp add: store_inv_update_Map)
    next
      case (EntryN x)
      with Some Cons.prems show ?thesis by simp
    qed
  qed
qed

lemma mem_set_inv: "store_inv s \<Longrightarrow> mem_set c opts s p now = Inr s' \<Longrightarrow> store_inv s'"
  by (auto simp: mem_set_def split: if_splits dest: getOrCreateNode_set_inv)

text \<open>Where \<open>set\<close> returns, the entry is under the marker of the node of its key.\<close>

lemma getOrCreateNode_set_entryAt:
  "getOrCreateNode_set m k e = Inr m' \<Longrightarrow> entryAt (Some (MapN m')) k = Some (EntryN e)"
proof (induction k arbitrary: m m')
  case Nil
  then show ?case by (auto simp: update_conv')
next
  case (Cons part rest)
  then show ?case
    by (auto simp: update_conv' split: option.splits node.splits sum.splits)
qed

text \<open>And nothing else that \<open>get\<close> can see on a key without the marker has changed.\<close>

lemma getOrCreateNode_set_frame:
  "getOrCreateNode_set m k1 e = Inr m' \<Longrightarrow> marker \<notin> set k1 \<Longrightarrow> marker \<notin> set k2 \<Longrightarrow> k1 \<noteq> k2
     \<Longrightarrow> entryAt (Some (MapN m')) k2 = entryAt (Some (MapN m)) k2"
proof (induction k1 arbitrary: m m' k2)
  case Nil
  then obtain b bs where "k2 = b # bs" "b \<noteq> marker" by (cases k2) auto
  with Nil show ?case by (auto simp: update_conv')
next
  case (Cons part rest)
  from Cons.prems have pm: "part \<noteq> marker" by auto
  show ?case
  proof (cases k2)
    case Nil
    with Cons.prems pm show ?thesis
      by (auto simp: update_conv' split: option.splits node.splits sum.splits)
  next
    case k2: (Cons b bs)
    show ?thesis
    proof (cases "b = part")
      case False
      with k2 Cons.prems show ?thesis
        by (auto simp: update_conv' split: option.splits node.splits sum.splits)
    next
      case True
      with k2 Cons.prems have ne: "rest \<noteq> bs" and mb: "marker \<notin> set bs"
        and mr: "marker \<notin> set rest" by auto
      show ?thesis
      proof (cases "map_of m part")
        case None
        with Cons.prems obtain c where
          c: "getOrCreateNode_set [] rest e = Inr c" "m' = AList.update part (MapN c) m"
          by (auto split: sum.splits)
        from Cons.IH[OF c(1) mr mb ne] have "entryAt (Some (MapN c)) bs = None" by simp
        with c None k2 True show ?thesis by (simp add: update_conv')
      next
        case (Some n)
        show ?thesis
        proof (cases n)
          case (MapN child)
          with Some Cons.prems obtain c where
            c: "getOrCreateNode_set child rest e = Inr c" "m' = AList.update part (MapN c) m"
            by (auto split: sum.splits)
          from Cons.IH[OF c(1) mr mb ne] c Some MapN k2 True show ?thesis
            by (simp add: update_conv')
        next
          case (EntryN x)
          with Some Cons.prems show ?thesis by simp
        qed
      qed
    qed
  qed
qed

lemma node_option_cases [case_names Absent IsMap IsEntry]:
  fixes x :: "node option"
  obtains "x = None" | m where "x = Some (MapN m)" | e where "x = Some (EntryN e)"
proof (cases x)
  case None
  then show ?thesis using that by simp
next
  case (Some n)
  then show ?thesis using that by (cases n) auto
qed

text \<open>\<open>cleanUpNode\<close> removes the expired entries of every level and nothing else.\<close>

lemma cleanUpNode_keys: "fst ` set (cleanUpNode m t) \<subseteq> fst ` set m"
  by (induction m t rule: cleanUpNode.induct) auto

lemma map_of_cleanUpNode:
  "store_inv m \<Longrightarrow> map_of (cleanUpNode m t) k = cleanUpValue t (map_of m k)"
proof (induction m t rule: cleanUpNode.induct)
  case (1 t)
  then show ?case by simp
next
  case (2 k' child rest t)
  then show ?case by auto
next
  case (3 k' entry rest t)
  have "k' \<notin> fst ` set (cleanUpNode rest t)" using 3(3) cleanUpNode_keys[of rest t] by auto
  then have "map_of (cleanUpNode rest t) k' = None" by (simp add: map_of_eq_None_iff)
  with 3 show ?case by auto
qed

lemma store_inv_cleanUpNode: "store_inv m \<Longrightarrow> store_inv (cleanUpNode m t)"
proof (induction m t rule: cleanUpNode.induct)
  case (1 t)
  then show ?case by simp
next
  case (2 k' child rest t)
  then show ?case using cleanUpNode_keys[of rest t] by auto
next
  case (3 k' entry rest t)
  then show ?case using cleanUpNode_keys[of rest t] by auto
qed

lemma node_inv_map_of: "store_inv m \<Longrightarrow> node_inv (map_of m k)"
  by (cases "map_of m k" rule: node_option_cases) (auto dest: store_inv_child)

lemma getNode_cleanUp:
  "node_inv cur \<Longrightarrow> getNode (cleanUpValue t cur) k = cleanUpValue t (getNode cur k)"
proof (induction k arbitrary: cur)
  case Nil
  then show ?case by simp
next
  case (Cons part rest)
  show ?case
  proof (cases cur rule: node_option_cases)
    case Absent
    then show ?thesis by simp
  next
    case (IsMap c)
    with Cons.prems have "store_inv c" by simp
    with IsMap Cons.IH[of "map_of c part"] show ?thesis
      by (simp add: map_of_cleanUpNode node_inv_map_of)
  next
    case (IsEntry e)
    then show ?thesis by simp
  qed
qed

lemma getNode_inv: "node_inv cur \<Longrightarrow> node_inv (getNode cur k)"
proof (induction k arbitrary: cur)
  case Nil
  then show ?case by simp
next
  case (Cons part rest)
  then show ?case
    by (cases cur rule: node_option_cases) (auto simp: node_inv_map_of)
qed

lemma entryAt_cleanUp:
  assumes "store_inv s"
  shows "entryAt (Some (MapN (cleanUpNode s t))) k = cleanUpValue t (entryAt (Some (MapN s)) k)"
proof -
  have ni: "node_inv (Some (MapN s))" using assms by simp
  have g: "getNode (Some (MapN (cleanUpNode s t))) k = cleanUpValue t (getNode (Some (MapN s)) k)"
    using getNode_cleanUp[OF ni, of t k] by simp
  show ?thesis
  proof (cases "getNode (Some (MapN s)) k" rule: node_option_cases)
    case Absent
    with g show ?thesis by (simp add: entryAt_def)
  next
    case (IsMap c)
    with getNode_inv[OF ni, of k] have "store_inv c" by simp
    with IsMap g show ?thesis by (simp add: entryAt_def map_of_cleanUpNode)
  next
    case (IsEntry e)
    with g show ?thesis by (simp add: entryAt_def)
  qed
qed

lemma mem_cleanUp_entry:
  "store_inv s \<Longrightarrow> mem_entry (mem_cleanUp s now) k = unexpired now (mem_entry s k)"
  by (cases "entryAt (Some (MapN s)) k" rule: node_option_cases)
     (auto simp: mem_entry_def mem_cleanUp_def entryAt_cleanUp unexpired_def)

lemma mem_cleanUp_get:
  "store_inv s \<Longrightarrow> mem_get (mem_cleanUp s now) k t =
     (case mem_entry s k of
        None \<Rightarrow> mem_get s k t
      | Some e \<Rightarrow> if isExpired now e then miss else mem_get s k t)"
  by (cases "entryAt (Some (MapN s)) k" rule: node_option_cases)
     (auto simp: mem_entry_def mem_cleanUp_def entryAt_cleanUp mem_get_entryAt)

lemma mem_cleanUp_inv: "store_inv s \<Longrightarrow> store_inv (mem_cleanUp s now)"
  by (simp add: mem_cleanUp_def store_inv_cleanUpNode)

text \<open>
  \<open>invalidate\<close> of the in-memory store, on a key without the marker: the entry at the
  key and those at its extensions are gone, every other key reads as before.
\<close>

lemma mem_invalidate_entryAt:
  "marker \<notin> set k \<Longrightarrow> k \<noteq> [] \<Longrightarrow>
   entryAt (Some (MapN (mem_invalidate m k))) k' =
     (if take (length k) k' = k then None else entryAt (Some (MapN m)) k')"
proof (induction m k arbitrary: k' rule: mem_invalidate.induct)
  case (1 m)
  then show ?case by simp
next
  case (2 m lastKey)
  then show ?case
    by (cases k') (auto simp: delete_conv')
next
  case (3 m part v va)
  show ?case
  proof (cases "map_of m part" rule: node_option_cases)
    case Absent
    then show ?thesis by (cases k') auto
  next
    case (IsMap child)
    with 3 show ?thesis by (cases k') (auto simp: update_conv')
  next
    case (IsEntry e)
    then show ?thesis by (cases k') auto
  qed
qed

lemma mem_invalidate_get:
  "marker \<notin> set k \<Longrightarrow> k \<noteq> [] \<Longrightarrow>
   mem_get (mem_invalidate s k) k' t = (if take (length k) k' = k then miss else mem_get s k' t)"
  by (simp add: mem_get_entryAt mem_invalidate_entryAt)

lemma mem_invalidate_inv: "store_inv m \<Longrightarrow> store_inv (mem_invalidate m k)"
proof (induction m k rule: mem_invalidate.induct)
  case (1 m)
  then show ?case by simp
next
  case (2 m lastKey)
  then show ?case by (simp add: store_inv_delete)
next
  case (3 m part v va)
  show ?case
  proof (cases "map_of m part" rule: node_option_cases)
    case Absent
    with 3 show ?thesis by simp
  next
    case (IsMap child)
    with 3(2) have "store_inv child" by (auto dest: store_inv_child)
    with 3(1) [OF IsMap] have "store_inv (mem_invalidate child (v # va))" by simp
    with 3(2) IsMap show ?thesis by (simp add: store_inv_update_Map)
  next
    case (IsEntry e)
    with 3 show ?thesis by simp
  qed
qed

section \<open>Lemmas on the flat store\<close>

lemma foldl_delete_map_of:
  "map_of (foldl (\<lambda>s k. AList.delete k s) st ks) k = (if k \<in> set ks then None else map_of st k)"
  by (induction ks arbitrary: st) (auto simp: delete_conv')

text \<open>
  \<open>invalidate\<close> of the flat store deletes the physical keys equal to \<open>path.join(":")\<close>
  and those that start with \<open>path.join(",") + ":"\<close>.
\<close>

lemma mmkv_invalidate_map_of:
  "map_of (mmkv_invalidate st path) k =
     (if k = keyToString path \<or> startsWith k (arrayToString path @ '':'') then None else map_of st k)"
  by (auto simp: mmkv_invalidate_def keysToDelete_def foldl_delete_map_of map_of_eq_None_iff)

lemma json_roundtrip_id:
  "json_representable v \<Longrightarrow> json_roundtrip v = v"
  "json_representables xs \<Longrightarrow> json_elems xs = xs"
  "json_representable_props kvs \<Longrightarrow> json_props kvs = kvs"
  by (induction v and xs and kvs rule: json_roundtrip_json_elems_json_props.induct) auto

lemma cleanUpLoop_spec:
  "list_all (\<lambda>(k, v). readable v) st \<Longrightarrow>
   \<exists>st'. cleanUpLoop ks st now = (None, st')
     \<and> list_all (\<lambda>(k, v). readable v) st'
     \<and> (\<forall>k. map_of st' k =
          (if k \<in> set ks
           then (case map_of st k of
                   Some (Stringified e) \<Rightarrow> if isExpired now e then None else Some (Stringified e)
                 | x \<Rightarrow> x)
           else map_of st k))"
proof (induction ks arbitrary: st)
  case Nil
  then show ?case by simp
next
  case (Cons keyStr ks)
  show ?case
  proof (cases "map_of st keyStr")
    case None
    from Cons.IH[OF Cons.prems] obtain st' where
      st': "cleanUpLoop ks st now = (None, st')" "list_all (\<lambda>(k, v). readable v) st'"
      "\<forall>k. map_of st' k = (if k \<in> set ks
           then (case map_of st k of
                   Some (Stringified e) \<Rightarrow> if isExpired now e then None else Some (Stringified e)
                 | x \<Rightarrow> x)
           else map_of st k)" by blast
    with None show ?thesis by auto
  next
    case (Some v)
    then have "(keyStr, v) \<in> set st" by (rule map_of_SomeD)
    with Cons.prems have rv: "readable v" by (auto simp: list_all_iff)
    show ?thesis
    proof (cases v)
      case (Raw r)
      with rv have "r = []" by (simp add: readable_def)
      from Cons.IH[OF Cons.prems] obtain st' where
        st': "cleanUpLoop ks st now = (None, st')" "list_all (\<lambda>(k, v). readable v) st'"
        "\<forall>k. map_of st' k = (if k \<in> set ks
           then (case map_of st k of
                   Some (Stringified e) \<Rightarrow> if isExpired now e then None else Some (Stringified e)
                 | x \<Rightarrow> x)
           else map_of st k)" by blast
      with Some Raw \<open>r = []\<close> show ?thesis by (auto simp: emptyText_def)
    next
      case (Stringified e)
      show ?thesis
      proof (cases "isExpired now e")
        case False
        from Cons.IH[OF Cons.prems] obtain st' where
          st': "cleanUpLoop ks st now = (None, st')" "list_all (\<lambda>(k, v). readable v) st'"
          "\<forall>k. map_of st' k = (if k \<in> set ks
             then (case map_of st k of
                     Some (Stringified e) \<Rightarrow> if isExpired now e then None else Some (Stringified e)
                   | x \<Rightarrow> x)
             else map_of st k)" by blast
        with Some Stringified False show ?thesis
          by (auto simp: emptyText_def JSON_parse_def)
      next
        case True
        have "list_all (\<lambda>(k, v). readable v) (AList.delete keyStr st)"
          using Cons.prems by (auto simp: list_all_iff AList.delete_eq)
        from Cons.IH[OF this] obtain st' where
          st': "cleanUpLoop ks (AList.delete keyStr st) now = (None, st')"
          "list_all (\<lambda>(k, v). readable v) st'"
          "\<forall>k. map_of st' k = (if k \<in> set ks
             then (case map_of (AList.delete keyStr st) k of
                     Some (Stringified e) \<Rightarrow> if isExpired now e then None else Some (Stringified e)
                   | x \<Rightarrow> x)
             else map_of (AList.delete keyStr st) k)" by blast
        with Some Stringified True show ?thesis
          by (auto simp: emptyText_def JSON_parse_def delete_conv')
      qed
    qed
  qed
qed

lemma mmkv_cleanUp_spec:
  assumes "list_all (\<lambda>(k, v). readable v) st"
  shows "\<exists>st'. mmkv_cleanUp st now = (None, st')
     \<and> (\<forall>k. map_of st' k =
           (case map_of st k of
              Some (Stringified e) \<Rightarrow> if isExpired now e then None else Some (Stringified e)
            | x \<Rightarrow> x))"
proof -
  from cleanUpLoop_spec[OF assms, of "map fst st" now] obtain st' where
    st': "cleanUpLoop (map fst st) st now = (None, st')"
    "\<forall>k. map_of st' k = (if k \<in> set (map fst st)
           then (case map_of st k of
                   Some (Stringified e) \<Rightarrow> if isExpired now e then None else Some (Stringified e)
                 | x \<Rightarrow> x)
           else map_of st k)" by blast
  have "\<And>k. k \<notin> set (map fst st) \<Longrightarrow> map_of st k = None"
    by (simp add: map_of_eq_None_iff)
  with st' show ?thesis by (auto simp: mmkv_cleanUp_def)
qed

section \<open>Lemmas on the examples\<close>

lemma exStore_is_set:
  "mem_set exConstants exOptions []
     \<lparr> key = [SegStr ''test''], sdata = d, sstaleTime = Some 1000, scacheTime = Some 1000 \<rparr> 0
   = Inr (exStore d)"
  by (simp add: mem_set_def exStore_def makeEntry_def nullish_def marker_def)

lemma exMem_get_fresh:
  "cs_get exMem (exStore d) [SegStr ''test''] 0 = Inr \<lparr> rdata = d, stale = False \<rparr>"
  by (simp add: exMem_def CacheStoreInMemory_def mem_get_def exStore_def marker_def isStale_def)

lemma exMem_get_stale:
  "cs_get exMem (exStore d) [SegStr ''test''] 2000 = Inr \<lparr> rdata = d, stale = True \<rparr>"
  by (simp add: exMem_def CacheStoreInMemory_def mem_get_def exStore_def marker_def isStale_def)

lemma exMem_get_empty:
  "cs_get exMem [] [SegStr ''test''] 0 = Inr \<lparr> rdata = Null, stale = False \<rparr>"
  by (simp add: exMem_def CacheStoreInMemory_def mem_get_def miss_def)

lemma exFlat_is_set:
  "mmkv_set exConstants exOptions
     (mmkv_set exConstants exOptions []
        \<lparr> key = [SegStr ''a'', SegStr ''b''], sdata = Str ''2'', sstaleTime = Some 1000, scacheTime = Some 1000 \<rparr> 0)
     \<lparr> key = [SegStr ''a'', SegStr ''b'', SegStr ''c''], sdata = Str ''3'', sstaleTime = Some 1000, scacheTime = Some 2000 \<rparr> 0
   = exFlat"
  by (simp add: mmkv_set_def exFlat_def keyToString_def segString_def JSON_stringify_def makeEntry_def nullish_def)

lemma isEqual_Null: "isEqual v Null = (v = Null)"
  by (cases v) auto

section \<open>The orchestrator\<close>

text \<open>
  C2, amended. Where \<open>cache.get(key)\<close> returns truthy data (the code tests
  \<open>if (cacheEntry.data)\<close>), \<open>onData\<close> is called with it first, once, and the next call, if
  there is one, is the fetch; when the entry is moreover not stale the call ends there:
  no fetch, no fetching-state callback, no write to the store.
\<close>

theorem cached_data_delivered_first:
  assumes "cs_get cache s (queryKey p) t0 = Inr ce" and "truthy (rdata ce)"
  shows "(\<exists>rest. events (queryWithCache cache p s t0 t1) = OnData (rdata ce) # rest
            \<and> (rest \<noteq> [] \<longrightarrow> hd rest = QueryFn))
       \<and> (\<not> stale ce \<longrightarrow> events (queryWithCache cache p s t0 t1) = [OnData (rdata ce)]
            \<and> completion (queryWithCache cache p s t0 t1) = None
            \<and> final (queryWithCache cache p s t0 t1) = s)"
  using assms
  by (auto simp: queryWithCache_def catchFinally_def Let_def
      split: sum.splits prod.splits option.splits)

text \<open>The fresh-cache scenario of the tests: one call of \<open>onData\<close> and nothing else.\<close>

theorem cached_data_delivered_first_witness:
  "cs_get exMem (exStore (Str ''cached'')) (queryKey (exQuery (Inr (Str ''new'')) True True)) 0
     = Inr \<lparr> rdata = Str ''cached'', stale = False \<rparr>
   \<and> truthy (Str ''cached'')
   \<and> events (queryWithCache exMem (exQuery (Inr (Str ''new'')) True True) (exStore (Str ''cached'')) 0 5)
       = [OnData (Str ''cached'')]
   \<and> completion (queryWithCache exMem (exQuery (Inr (Str ''new'')) True True) (exStore (Str ''cached'')) 0 5)
       = None
   \<and> final (queryWithCache exMem (exQuery (Inr (Str ''new'')) True True) (exStore (Str ''cached'')) 0 5)
       = exStore (Str ''cached'')"
proof -
  have h1: "cs_get exMem (exStore (Str ''cached'')) (queryKey (exQuery (Inr (Str ''new'')) True True)) 0
     = Inr \<lparr> rdata = Str ''cached'', stale = False \<rparr>"
    by (simp add: exQuery_def exMem_get_fresh)
  have h2: "truthy (rdata \<lparr> rdata = Str ''cached'', stale = False \<rparr>)" by simp
  show ?thesis using h1 cached_data_delivered_first [OF h1 h2, of 5] by simp
qed

text \<open>
  The store holds the number 0 at \<open>["test"]\<close>, fresh: \<open>get\<close> returns it, not stale, and
  yet \<open>onData(0)\<close> is not called, the fetch is invoked and the store is written.
\<close>

theorem falsy_cached_data_not_delivered:
  "cs_get exMem (exStore (Num 0)) [SegStr ''test''] 0 = Inr \<lparr> rdata = Num 0, stale = False \<rparr>
   \<and> events (queryWithCache exMem (exQuery (Inr (Num 7)) False False) (exStore (Num 0)) 0 5)
       = [QueryFn, OnData (Num 7),
          CacheSet \<lparr> key = [SegStr ''test''], sdata = Num 7, sstaleTime = None, scacheTime = None \<rparr>]"
  by (simp add: exMem_get_fresh queryWithCache_def exQuery_def exMem_def CacheStoreInMemory_def
      mem_get_def exStore_def marker_def isStale_def mem_set_def makeEntry_def nullish_def Let_def)

text \<open>
  C3, amended. In a call that proceeds to the fetch: when the data read from the cache was
  truthy (and so stale), \<open>onIsFetching\<close> is never called; when it was falsy and
  \<open>onIsFetching\<close> was supplied, it is called with \<open>true\<close> once, right before the
  fetch is invoked, and with \<open>false\<close> once, as the last call, however the fetch settles
  and whether or not \<open>onError\<close> was supplied; a rejected fetch without \<open>onError\<close>
  makes the call fail with the same error, after those calls.
\<close>

theorem fetching_state_on_miss_only:
  assumes "cs_get cache s (queryKey p) t0 = Inr ce"
    and "\<not> (truthy (rdata ce) \<and> \<not> stale ce)"
  shows "(truthy (rdata ce) \<longrightarrow> (\<forall>b. OnIsFetching b \<notin> set (events (queryWithCache cache p s t0 t1))))
       \<and> (\<not> truthy (rdata ce) \<and> onIsFetching p \<longrightarrow>
            (\<exists>mid. events (queryWithCache cache p s t0 t1)
                      = OnIsFetching True # QueryFn # mid @ [OnIsFetching False]
                  \<and> (\<forall>b. OnIsFetching b \<notin> set mid)))
       \<and> (\<forall>e. queryFn p = Inl e \<and> \<not> onError p \<longrightarrow>
            completion (queryWithCache cache p s t0 t1) = Some e)"
  using assms
  by (auto simp: queryWithCache_def catchFinally_def Let_def
      split: sum.splits prod.splits option.splits)

theorem fetching_state_on_miss_only_witness:
  "cs_get exMem [] (queryKey (exQuery (Inl (Thrown (Str ''E''))) True False)) 0
     = Inr \<lparr> rdata = Null, stale = False \<rparr>
   \<and> \<not> truthy Null
   \<and> events (queryWithCache exMem (exQuery (Inl (Thrown (Str ''E''))) True False) [] 0 5)
       = [OnIsFetching True, QueryFn, OnIsFetching False]
   \<and> completion (queryWithCache exMem (exQuery (Inl (Thrown (Str ''E''))) True False) [] 0 5)
       = Some (Thrown (Str ''E''))"
proof -
  let ?p = "exQuery (Inl (Thrown (Str ''E''))) True False"
  have h1: "cs_get exMem [] (queryKey ?p) 0 = Inr \<lparr> rdata = Null, stale = False \<rparr>"
    by (simp add: exQuery_def exMem_get_empty)
  have h2: "\<not> (truthy (rdata \<lparr> rdata = Null, stale = False \<rparr>) \<and> \<not> stale \<lparr> rdata = Null, stale = False \<rparr>)"
    by simp
  have q: "queryFn ?p = Inl (Thrown (Str ''E''))" "onIsFetching ?p" "\<not> onError ?p"
    by (simp_all add: exQuery_def)
  from fetching_state_on_miss_only [OF h1 h2, of 5] q
  obtain mid where m: "events (queryWithCache exMem ?p [] 0 5) = OnIsFetching True # QueryFn # mid @ [OnIsFetching False]"
    and c: "completion (queryWithCache exMem ?p [] 0 5) = Some (Thrown (Str ''E''))"
    by auto
  have "events (queryWithCache exMem ?p [] 0 5) = [OnIsFetching True, QueryFn, OnIsFetching False]"
    by (simp add: queryWithCache_def exQuery_def exMem_def CacheStoreInMemory_def
      mem_get_def miss_def catchFinally_def Let_def)
  with h1 c show ?thesis by simp
qed

text \<open>
  The store holds the number 0 at \<open>["test"]\<close>, stale: the data is present, and the
  fetching-state callback fires all the same.
\<close>

theorem fetching_state_on_stale_falsy_data:
  "cs_get exMem (exStore (Num 0)) [SegStr ''test''] 2000 = Inr \<lparr> rdata = Num 0, stale = True \<rparr>
   \<and> events (queryWithCache exMem (exQuery (Inr (Num 0)) True False) (exStore (Num 0)) 2000 2005)
       = [OnIsFetching True, QueryFn,
          CacheSet \<lparr> key = [SegStr ''test''], sdata = Num 0, sstaleTime = None, scacheTime = None \<rparr>,
          OnIsFetching False]"
  by (simp add: exMem_get_stale queryWithCache_def exQuery_def exMem_def CacheStoreInMemory_def
      mem_get_def exStore_def marker_def isStale_def mem_set_def makeEntry_def nullish_def Let_def)

text \<open>
  C4. When the fetch rejects with \<open>E\<close>: with \<open>onError\<close> supplied it is called with
  \<open>E\<close> once and the call resolves; without it the call fails with \<open>E\<close>; in both
  cases \<open>cache.set\<close> is not called and the store is what it was, so \<open>get\<close> answers as
  before.
\<close>

theorem failed_fetch_leaves_cache:
  assumes "cs_get cache s (queryKey p) t0 = Inr ce"
    and "\<not> (truthy (rdata ce) \<and> \<not> stale ce)"
    and "queryFn p = Inl E"
  shows "final (queryWithCache cache p s t0 t1) = s
       \<and> (\<forall>ps. CacheSet ps \<notin> set (events (queryWithCache cache p s t0 t1)))
       \<and> (\<forall>t. cs_get cache (final (queryWithCache cache p s t0 t1)) (queryKey p) t
                = cs_get cache s (queryKey p) t)
       \<and> (onError p \<longrightarrow> count_list (events (queryWithCache cache p s t0 t1)) (OnError E) = 1
                \<and> completion (queryWithCache cache p s t0 t1) = None)
       \<and> (\<not> onError p \<longrightarrow> completion (queryWithCache cache p s t0 t1) = Some E
                \<and> (\<forall>e. OnError e \<notin> set (events (queryWithCache cache p s t0 t1))))"
  using assms
  by (auto simp: queryWithCache_def catchFinally_def Let_def
      split: sum.splits prod.splits option.splits)

theorem failed_fetch_leaves_cache_witness:
  "cs_get exMem (exStore (Str ''cached'')) (queryKey (exQuery (Inl (Thrown (Str ''E''))) False True)) 2000
     = Inr \<lparr> rdata = Str ''cached'', stale = True \<rparr>
   \<and> queryFn (exQuery (Inl (Thrown (Str ''E''))) False True) = Inl (Thrown (Str ''E''))
   \<and> final (queryWithCache exMem (exQuery (Inl (Thrown (Str ''E''))) False True) (exStore (Str ''cached'')) 2000 2005)
       = exStore (Str ''cached'')
   \<and> count_list (events (queryWithCache exMem (exQuery (Inl (Thrown (Str ''E''))) False True)
         (exStore (Str ''cached'')) 2000 2005)) (OnError (Thrown (Str ''E''))) = 1
   \<and> completion (queryWithCache exMem (exQuery (Inl (Thrown (Str ''E''))) False True) (exStore (Str ''cached'')) 2000 2005)
       = None"
proof -
  let ?p = "exQuery (Inl (Thrown (Str ''E''))) False True"
  have h1: "cs_get exMem (exStore (Str ''cached'')) (queryKey ?p) 2000
     = Inr \<lparr> rdata = Str ''cached'', stale = True \<rparr>"
    by (simp add: exQuery_def exMem_get_stale)
  have h2: "\<not> (truthy (rdata \<lparr> rdata = Str ''cached'', stale = True \<rparr>)
              \<and> \<not> stale \<lparr> rdata = Str ''cached'', stale = True \<rparr>)"
    by simp
  have h3: "queryFn ?p = Inl (Thrown (Str ''E''))" and h4: "onError ?p"
    by (simp_all add: exQuery_def)
  show ?thesis using h1 h3 h4 failed_fetch_leaves_cache [OF h1 h2 h3, of 2005] by simp
qed

text \<open>
  C5. When the fetch resolves with \<open>R\<close>: after the fetch \<open>onData(R)\<close> is called (once)
  exactly when \<open>isEqual(R, cacheEntry.data)\<close> is false, and in either case
  \<open>cache.set\<close> is called once with \<open>R\<close> and the caller's
  \<open>cacheExpirationTime\<close> and \<open>cacheStoredTime\<close> as \<open>staleTime\<close> and
  \<open>cacheTime\<close>; the store after the call is the one that \<open>set\<close> leaves.
\<close>

theorem fetched_result_reported_and_stored:
  assumes "cs_get cache s (queryKey p) t0 = Inr ce"
    and "\<not> (truthy (rdata ce) \<and> \<not> stale ce)"
    and "queryFn p = Inr R"
  shows "(OnData R \<in> set (afterFetch (events (queryWithCache cache p s t0 t1)))
            \<longleftrightarrow> \<not> isEqual R (rdata ce))
       \<and> count_list (afterFetch (events (queryWithCache cache p s t0 t1))) (OnData R) \<le> 1
       \<and> count_list (events (queryWithCache cache p s t0 t1))
            (CacheSet \<lparr> key = queryKey p, sdata = R, sstaleTime = cacheExpirationTime p,
                        scacheTime = cacheStoredTime p \<rparr>) = 1
       \<and> final (queryWithCache cache p s t0 t1)
           = snd (cs_set cache s \<lparr> key = queryKey p, sdata = R, sstaleTime = cacheExpirationTime p,
                        scacheTime = cacheStoredTime p \<rparr> t1)"
  using assms
  by (auto simp: queryWithCache_def catchFinally_def Let_def afterFetch_def
      split: sum.splits prod.splits option.splits)

theorem fetched_result_reported_and_stored_witness:
  "cs_get exMem (exStore (Str ''cached'')) (queryKey (exQuery (Inr (Str ''new'')) False False)) 2000
     = Inr \<lparr> rdata = Str ''cached'', stale = True \<rparr>
   \<and> queryFn (exQuery (Inr (Str ''new'')) False False) = Inr (Str ''new'')
   \<and> \<not> isEqual (Str ''new'') (Str ''cached'')
   \<and> OnData (Str ''new'') \<in> set (afterFetch (events (queryWithCache exMem
         (exQuery (Inr (Str ''new'')) False False) (exStore (Str ''cached'')) 2000 2005)))
   \<and> cs_get exMem (final (queryWithCache exMem (exQuery (Inr (Str ''new'')) False False)
         (exStore (Str ''cached'')) 2000 2005)) [SegStr ''test''] 2005
       = Inr \<lparr> rdata = Str ''new'', stale = False \<rparr>"
proof -
  let ?p = "exQuery (Inr (Str ''new'')) False False"
  have h1: "cs_get exMem (exStore (Str ''cached'')) (queryKey ?p) 2000
     = Inr \<lparr> rdata = Str ''cached'', stale = True \<rparr>"
    by (simp add: exQuery_def exMem_get_stale)
  have h2: "\<not> (truthy (rdata \<lparr> rdata = Str ''cached'', stale = True \<rparr>)
              \<and> \<not> stale \<lparr> rdata = Str ''cached'', stale = True \<rparr>)"
    by simp
  have h3: "queryFn ?p = Inr (Str ''new'')"
    by (simp add: exQuery_def)
  have h4: "\<not> isEqual (Str ''new'') (Str ''cached'')" by simp
  have fin: "snd (cs_set exMem (exStore (Str ''cached''))
       \<lparr> key = queryKey ?p, sdata = Str ''new'', sstaleTime = cacheExpirationTime ?p,
         scacheTime = cacheStoredTime ?p \<rparr> 2005)
     = [(SegStr ''test'', MapN [(SegStr ''cacheEntry'',
          EntryN \<lparr> data = Str ''new'', timestamp = 2005, staleTime = 5000, cacheTime = 30000 \<rparr>)])]"
    by (simp add: exQuery_def exMem_def CacheStoreInMemory_def mem_set_def exStore_def
        makeEntry_def nullish_def marker_def exConstants_def exOptions_def)
  have g: "cs_get exMem [(SegStr ''test'', MapN [(SegStr ''cacheEntry'',
          EntryN \<lparr> data = Str ''new'', timestamp = 2005, staleTime = 5000, cacheTime = 30000 \<rparr>)])]
          [SegStr ''test''] 2005 = Inr \<lparr> rdata = Str ''new'', stale = False \<rparr>"
    by (simp add: exMem_def CacheStoreInMemory_def mem_get_def marker_def isStale_def)
  show ?thesis
    using h1 h3 h4 fin g fetched_result_reported_and_stored [OF h1 h2 h3, of 2005] by simp
qed

text \<open>
  C9. When \<open>get\<close> returns \<open>null\<close> data and the fetch resolves to a value deep-equal
  to \<open>null\<close>, \<open>onData\<close> is not called at all, and \<open>cache.set\<close> is still called
  once with that value.
\<close>

theorem null_result_on_miss_is_silent:
  assumes "cs_get cache s (queryKey p) t0 = Inr ce"
    and "rdata ce = Null"
    and "queryFn p = Inr R"
    and "isEqual R Null"
  shows "(\<forall>v. OnData v \<notin> set (events (queryWithCache cache p s t0 t1)))
       \<and> count_list (events (queryWithCache cache p s t0 t1))
           (CacheSet \<lparr> key = queryKey p, sdata = R, sstaleTime = cacheExpirationTime p,
                        scacheTime = cacheStoredTime p \<rparr>) = 1
       \<and> final (queryWithCache cache p s t0 t1)
           = snd (cs_set cache s \<lparr> key = queryKey p, sdata = R, sstaleTime = cacheExpirationTime p,
                        scacheTime = cacheStoredTime p \<rparr> t1)"
  using assms
  by (auto simp: queryWithCache_def catchFinally_def Let_def
      split: sum.splits prod.splits option.splits)

theorem null_result_on_miss_is_silent_witness:
  "cs_get exMem [] (queryKey (exQuery (Inr Null) True True)) 0 = Inr \<lparr> rdata = Null, stale = False \<rparr>
   \<and> queryFn (exQuery (Inr Null) True True) = Inr Null
   \<and> isEqual Null Null
   \<and> events (queryWithCache exMem (exQuery (Inr Null) True True) [] 0 5)
       = [OnIsFetching True, QueryFn,
          CacheSet \<lparr> key = [SegStr ''test''], sdata = Null, sstaleTime = None, scacheTime = None \<rparr>,
          OnIsFetching False]
   \<and> final (queryWithCache exMem (exQuery (Inr Null) True True) [] 0 5)
       = [(SegStr ''test'', MapN [(SegStr ''cacheEntry'',
            EntryN \<lparr> data = Null, timestamp = 5, staleTime = 5000, cacheTime = 30000 \<rparr>)])]"
proof -
  let ?p = "exQuery (Inr Null) True True"
  have h1: "cs_get exMem [] (queryKey ?p) 0 = Inr \<lparr> rdata = Null, stale = False \<rparr>"
    by (simp add: exQuery_def exMem_get_empty)
  have h2: "rdata \<lparr> rdata = Null, stale = False \<rparr> = Null" by simp
  have h3: "queryFn ?p = Inr Null" by (simp add: exQuery_def)
  have h4: "isEqual Null Null" by simp
  have ev: "events (queryWithCache exMem ?p [] 0 5)
       = [OnIsFetching True, QueryFn,
          CacheSet \<lparr> key = [SegStr ''test''], sdata = Null, sstaleTime = None, scacheTime = None \<rparr>,
          OnIsFetching False]"
    by (simp add: queryWithCache_def exQuery_def exMem_def CacheStoreInMemory_def
      mem_get_def miss_def mem_set_def makeEntry_def nullish_def Let_def)
  have fin: "snd (cs_set exMem []
       \<lparr> key = queryKey ?p, sdata = Null, sstaleTime = cacheExpirationTime ?p,
         scacheTime = cacheStoredTime ?p \<rparr> 5)
     = [(SegStr ''test'', MapN [(SegStr ''cacheEntry'',
          EntryN \<lparr> data = Null, timestamp = 5, staleTime = 5000, cacheTime = 30000 \<rparr>)])]"
    by (simp add: exQuery_def exMem_def CacheStoreInMemory_def mem_set_def
        makeEntry_def nullish_def marker_def exConstants_def exOptions_def)
  show ?thesis
    using h1 h3 ev fin null_result_on_miss_is_silent [OF h1 h2 h3 h4, of 5] by simp
qed

text \<open>
  C10. In-memory store: for distinct non-empty keys \<open>k1\<close> and \<open>k2\<close> without the
  marker \<open>"cacheEntry"\<close> among their segments, \<open>set\<close> on \<open>k1\<close> returns normally
  and \<open>get(k2)\<close> answers after it as before, at any time; one key may be a prefix of the
  other.
\<close>

theorem mem_set_frame:
  assumes "store_inv s" and "key p = k1" and "k1 \<noteq> []" and "k2 \<noteq> []" and "k1 \<noteq> k2"
    and "marker \<notin> set k1" and "marker \<notin> set k2"
  shows "\<exists>s'. mem_set c opts s p now = Inr s' \<and> (\<forall>t. mem_get s' k2 t = mem_get s k2 t)"
proof -
  from assms getOrCreateNode_set_succeeds [of s k1 "makeEntry c opts p now"]
  obtain s' where s': "getOrCreateNode_set s k1 (makeEntry c opts p now) = Inr s'" by auto
  from getOrCreateNode_set_frame [OF s' assms(6) assms(7) assms(5)]
  have "entryAt (Some (MapN s')) k2 = entryAt (Some (MapN s)) k2" .
  then have "\<forall>t. mem_get s' k2 t = mem_get s k2 t" by (simp add: mem_get_entryAt)
  with s' assms show ?thesis by (auto simp: mem_set_def)
qed

theorem mem_set_frame_witness:
  "store_inv exTree
   \<and> [SegStr ''a''] \<noteq> [SegStr ''a'', SegStr ''b'']
   \<and> marker \<notin> set [SegStr ''a''] \<and> marker \<notin> set [SegStr ''a'', SegStr ''b'']
   \<and> mem_get (projr (mem_set exConstants exOptions exTree
        \<lparr> key = [SegStr ''a''], sdata = Str ''9'', sstaleTime = None, scacheTime = None \<rparr> 7))
        [SegStr ''a'', SegStr ''b''] 8
      = mem_get exTree [SegStr ''a'', SegStr ''b''] 8
   \<and> mem_get exTree [SegStr ''a'', SegStr ''b''] 8 = \<lparr> rdata = Str ''2'', stale = False \<rparr>"
proof -
  let ?p = "\<lparr> key = [SegStr ''a''], sdata = Str ''9'', sstaleTime = None, scacheTime = None \<rparr>"
  have h1: "store_inv exTree" by (simp add: exTree_def marker_def)
  have h2: "key ?p = [SegStr ''a'']" by simp
  have h3: "[SegStr ''a''] \<noteq> []" "[SegStr ''a'', SegStr ''b''] \<noteq> []"
    "[SegStr ''a''] \<noteq> [SegStr ''a'', SegStr ''b'']" by simp_all
  have h4: "marker \<notin> set [SegStr ''a'']" "marker \<notin> set [SegStr ''a'', SegStr ''b'']"
    by (simp_all add: marker_def)
  have g: "mem_get exTree [SegStr ''a'', SegStr ''b''] 8 = \<lparr> rdata = Str ''2'', stale = False \<rparr>"
    by (simp add: mem_get_def exTree_def marker_def isStale_def)
  from mem_set_frame [OF h1 h2 h3 h4, of exConstants exOptions 7]
  obtain s' where "mem_set exConstants exOptions exTree ?p 7 = Inr s'"
    and "\<forall>t. mem_get s' [SegStr ''a'', SegStr ''b''] t = mem_get exTree [SegStr ''a'', SegStr ''b''] t"
    by blast
  then have "mem_get (projr (mem_set exConstants exOptions exTree ?p 7)) [SegStr ''a'', SegStr ''b''] 8
      = mem_get exTree [SegStr ''a'', SegStr ''b''] 8" by simp
  with h1 h3 h4 g show ?thesis by simp
qed

section \<open>The stores\<close>

text \<open>
  C1. \<open>invalidate(K)\<close> is to remove the entry at \<open>K\<close> and every entry whose key
  extends \<open>K\<close>. The flat store does not: with entries at \<open>["a", "b"]\<close> and
  \<open>["a", "b", "c"]\<close>, \<open>invalidate(["a", "b"])\<close> removes the first and leaves the
  second, which \<open>get\<close> still returns; the in-memory store removes both.
\<close>

theorem mmkv_invalidate_keeps_descendant:
  "mmkv_get exFlat [SegStr ''a'', SegStr ''b'', SegStr ''c''] 5 = Inr \<lparr> rdata = Str ''3'', stale = False \<rparr>
   \<and> mmkv_get (mmkv_invalidate exFlat [SegStr ''a'', SegStr ''b''])
        [SegStr ''a'', SegStr ''b'', SegStr ''c''] 5 = Inr \<lparr> rdata = Str ''3'', stale = False \<rparr>
   \<and> mmkv_get (mmkv_invalidate exFlat [SegStr ''a'', SegStr ''b'']) [SegStr ''a'', SegStr ''b''] 5 = Inr miss
   \<and> mem_get exDeep [SegStr ''a'', SegStr ''b'', SegStr ''c''] 5 = \<lparr> rdata = Str ''3'', stale = False \<rparr>
   \<and> mem_get (mem_invalidate exDeep [SegStr ''a'', SegStr ''b''])
        [SegStr ''a'', SegStr ''b'', SegStr ''c''] 5 = miss"
  by (simp add: mmkv_get_def mmkv_invalidate_def keysToDelete_def exFlat_def keyToString_def
      arrayToString_def segString_def emptyText_def JSON_parse_def isStale_def
      mem_get_def exDeep_def marker_def miss_def AList.delete_eq)

text \<open>
  C6, amended. Flat store: when the record under the joined key is a non-empty string
  that \<open>JSON.parse\<close> rejects, \<open>get\<close> throws the SyntaxError; it returns
  \<open>{data: null, stale: false}\<close> when there is no record or the record is the empty
  string.
\<close>

theorem mmkv_get_malformed_throws:
  "(map_of store (keyToString k) = Some (Raw r) \<and> r \<noteq> [] \<longrightarrow> mmkv_get store k now = Inl SyntaxError)
   \<and> (map_of store (keyToString k) = None \<or> map_of store (keyToString k) = Some (Raw [])
        \<longrightarrow> mmkv_get store k now = Inr miss)"
  by (auto simp: mmkv_get_def emptyText_def JSON_parse_def)

theorem mmkv_get_malformed_throws_witness:
  "map_of exCorrupt (keyToString [SegStr ''bad'']) = Some (Raw ''{'') \<and> ''{'' \<noteq> []
   \<and> mmkv_get exCorrupt [SegStr ''bad''] 5 = Inl SyntaxError
   \<and> map_of exCorrupt (keyToString [SegStr ''none'']) = None
   \<and> mmkv_get exCorrupt [SegStr ''none''] 5 = Inr miss"
proof -
  have h1: "map_of exCorrupt (keyToString [SegStr ''bad'']) = Some (Raw ''{'') \<and> ''{'' \<noteq> []"
    by (simp add: exCorrupt_def keyToString_def segString_def)
  have h2: "map_of exCorrupt (keyToString [SegStr ''none'']) = None"
    by (simp add: exCorrupt_def keyToString_def segString_def)
  show ?thesis
    using h1 h2 mmkv_get_malformed_throws [of exCorrupt "[SegStr ''bad'']" "''{''" 5]
      mmkv_get_malformed_throws [of exCorrupt "[SegStr ''none'']" "''{''" 5]
    by simp
qed

text \<open>A record that is not JSON text: \<open>get\<close> throws instead of reporting a miss.\<close>

theorem mmkv_get_malformed_counterexample:
  "map_of exCorrupt (keyToString [SegStr ''bad'']) = Some (Raw ''{'')
   \<and> JSON_parse (Raw ''{'') = Inl SyntaxError
   \<and> mmkv_get exCorrupt [SegStr ''bad''] 5 = Inl SyntaxError
   \<and> mmkv_get exCorrupt [SegStr ''bad''] 5 \<noteq> Inr \<lparr> rdata = Null, stale = False \<rparr>"
  by (simp add: mmkv_get_def exCorrupt_def keyToString_def segString_def emptyText_def JSON_parse_def)

text \<open>
  C7, amended. With a non-empty key and a resolved \<open>staleTime\<close> that is not negative,
  \<open>set\<close> and then \<open>get\<close> at the same time return \<open>{data: V, stale: false}\<close>:
  in the in-memory store for every key without the marker \<open>"cacheEntry"\<close> among its
  segments, in the flat store for every key and every JSON-representable \<open>V\<close>.
\<close>

theorem set_then_get:
  assumes "key p \<noteq> []" and "0 \<le> staleTime (makeEntry c opts p now)"
  shows "(store_inv s \<and> marker \<notin> set (key p) \<longrightarrow>
            (\<exists>s'. mem_set c opts s p now = Inr s'
               \<and> mem_get s' (key p) now = \<lparr> rdata = sdata p, stale = False \<rparr>))
       \<and> (json_representable (sdata p) \<longrightarrow>
            mmkv_get (mmkv_set c opts st p now) (key p) now = Inr \<lparr> rdata = sdata p, stale = False \<rparr>)"
proof (intro conjI impI)
  assume a: "store_inv s \<and> marker \<notin> set (key p)"
  then obtain s' where s': "getOrCreateNode_set s (key p) (makeEntry c opts p now) = Inr s'"
    using getOrCreateNode_set_succeeds [of s "key p" "makeEntry c opts p now"] by auto
  from getOrCreateNode_set_entryAt [OF s']
  have "mem_get s' (key p) now
          = \<lparr> rdata = data (makeEntry c opts p now), stale = isStale now (makeEntry c opts p now) \<rparr>"
    by (simp add: mem_get_entryAt)
  moreover have "data (makeEntry c opts p now) = sdata p" by (simp add: makeEntry_def)
  moreover have "\<not> isStale now (makeEntry c opts p now)"
    using assms(2) by (simp add: isStale_def makeEntry_def)
  ultimately show "\<exists>s'. mem_set c opts s p now = Inr s'
      \<and> mem_get s' (key p) now = \<lparr> rdata = sdata p, stale = False \<rparr>"
    using s' assms(1) by (simp add: mem_set_def)
next
  assume j: "json_representable (sdata p)"
  have "\<not> isStale now (makeEntry c opts p now)"
    using assms(2) by (simp add: isStale_def makeEntry_def)
  then show "mmkv_get (mmkv_set c opts st p now) (key p) now = Inr \<lparr> rdata = sdata p, stale = False \<rparr>"
    using assms(1) j
    by (simp add: mmkv_get_def mmkv_set_def update_conv' JSON_stringify_def JSON_parse_def
        emptyText_def json_roundtrip_id isStale_def makeEntry_def)
qed

theorem set_then_get_witness:
  "key \<lparr> key = [SegStr ''a'', SegStr ''b''], sdata = Obj [(''title'', Str ''x'')],
          sstaleTime = None, scacheTime = None \<rparr> \<noteq> []
   \<and> 0 \<le> staleTime (makeEntry exConstants exOptions
          \<lparr> key = [SegStr ''a'', SegStr ''b''], sdata = Obj [(''title'', Str ''x'')],
            sstaleTime = None, scacheTime = None \<rparr> 7)
   \<and> store_inv exTree \<and> marker \<notin> set [SegStr ''a'', SegStr ''b'']
   \<and> json_representable (Obj [(''title'', Str ''x'')])
   \<and> mem_get (projr (mem_set exConstants exOptions exTree
          \<lparr> key = [SegStr ''a'', SegStr ''b''], sdata = Obj [(''title'', Str ''x'')],
            sstaleTime = None, scacheTime = None \<rparr> 7)) [SegStr ''a'', SegStr ''b''] 7
       = \<lparr> rdata = Obj [(''title'', Str ''x'')], stale = False \<rparr>
   \<and> mmkv_get (mmkv_set exConstants exOptions exFlat
          \<lparr> key = [SegStr ''a'', SegStr ''b''], sdata = Obj [(''title'', Str ''x'')],
            sstaleTime = None, scacheTime = None \<rparr> 7) [SegStr ''a'', SegStr ''b''] 7
       = Inr \<lparr> rdata = Obj [(''title'', Str ''x'')], stale = False \<rparr>"
proof -
  let ?p = "\<lparr> key = [SegStr ''a'', SegStr ''b''], sdata = Obj [(''title'', Str ''x'')],
            sstaleTime = None, scacheTime = None \<rparr>"
  have h1: "key ?p \<noteq> []" by simp
  have h2: "0 \<le> staleTime (makeEntry exConstants exOptions ?p 7)"
    by (simp add: makeEntry_def nullish_def exConstants_def exOptions_def)
  have h3: "store_inv exTree \<and> marker \<notin> set (key ?p)" by (simp add: exTree_def marker_def)
  have h4: "json_representable (sdata ?p)" by simp
  from set_then_get [OF h1 h2, of exTree exFlat] h3 h4
  obtain s' where "mem_set exConstants exOptions exTree ?p 7 = Inr s'"
    and "mem_get s' (key ?p) 7 = \<lparr> rdata = sdata ?p, stale = False \<rparr>"
    and "mmkv_get (mmkv_set exConstants exOptions exFlat ?p 7) (key ?p) 7
          = Inr \<lparr> rdata = sdata ?p, stale = False \<rparr>"
    by blast
  then show ?thesis using h1 h2 h3 h4 by simp
qed

text \<open>
  After \<open>set(["test"], ...)\<close> on the empty in-memory store, \<open>set\<close> with the key
  \<open>["test", "cacheEntry"]\<close> walks onto the entry object and throws.
\<close>

theorem mem_set_through_marker_throws:
  "mem_set exConstants exOptions []
     \<lparr> key = [SegStr ''test''], sdata = Str ''cached'', sstaleTime = Some 1000, scacheTime = Some 1000 \<rparr> 0
     = Inr (exStore (Str ''cached''))
   \<and> mem_set exConstants exOptions (exStore (Str ''cached''))
     \<lparr> key = [SegStr ''test'', SegStr ''cacheEntry''], sdata = Str ''x'',
       sstaleTime = Some 1000, scacheTime = Some 1000 \<rparr> 0
     = Inl TypeError"
  by (simp add: mem_set_def exStore_def makeEntry_def nullish_def marker_def)

text \<open>
  C8, amended. \<open>cleanUp\<close> at time \<open>now\<close> removes exactly the entries with
  \<open>now - timestamp > cacheTime\<close>: \<open>get\<close> on a key whose entry was expired then
  returns \<open>{data: null, stale: false}\<close> and answers on every other key as before, in
  every state of the in-memory store, and in every state of the flat store in which each
  record is readable (a serialized entry or the empty string).
\<close>

theorem cleanUp_removes_expired:
  "(store_inv s \<longrightarrow>
      mem_entry (mem_cleanUp s now) k = unexpired now (mem_entry s k)
      \<and> mem_get (mem_cleanUp s now) k t =
          (case mem_entry s k of
             None \<Rightarrow> mem_get s k t
           | Some e \<Rightarrow> if isExpired now e then miss else mem_get s k t))
   \<and> (list_all (\<lambda>(x, v). readable v) st \<longrightarrow>
        (\<exists>st'. mmkv_cleanUp st now = (None, st')
           \<and> mmkv_entry st' k = unexpired now (mmkv_entry st k)
           \<and> mmkv_get st' k t =
               (case mmkv_entry st k of
                  None \<Rightarrow> mmkv_get st k t
                | Some e \<Rightarrow> if isExpired now e then Inr miss else mmkv_get st k t)))"
proof (intro conjI impI)
  assume "store_inv s"
  then show "mem_entry (mem_cleanUp s now) k = unexpired now (mem_entry s k)"
    by (rule mem_cleanUp_entry)
next
  assume "store_inv s"
  then show "mem_get (mem_cleanUp s now) k t =
          (case mem_entry s k of
             None \<Rightarrow> mem_get s k t
           | Some e \<Rightarrow> if isExpired now e then miss else mem_get s k t)"
    by (rule mem_cleanUp_get)
next
  assume "list_all (\<lambda>(x, v). readable v) st"
  from mmkv_cleanUp_spec [OF this, of now] obtain st' where
    st': "mmkv_cleanUp st now = (None, st')"
    "\<forall>k. map_of st' k =
           (case map_of st k of
              Some (Stringified e) \<Rightarrow> if isExpired now e then None else Some (Stringified e)
            | x \<Rightarrow> x)" by blast
  from st'(2) have m: "map_of st' (keyToString k) =
           (case map_of st (keyToString k) of
              Some (Stringified e) \<Rightarrow> if isExpired now e then None else Some (Stringified e)
            | x \<Rightarrow> x)" by blast
  have "mmkv_entry st' k = unexpired now (mmkv_entry st k)"
    by (auto simp: mmkv_entry_def unexpired_def m split: option.splits stored.splits)
  moreover have "mmkv_get st' k t =
               (case mmkv_entry st k of
                  None \<Rightarrow> mmkv_get st k t
                | Some e \<Rightarrow> if isExpired now e then Inr miss else mmkv_get st k t)"
    by (auto simp: mmkv_entry_def mmkv_get_def m emptyText_def JSON_parse_def miss_def
        split: option.splits stored.splits)
  ultimately show "\<exists>st'. mmkv_cleanUp st now = (None, st')
           \<and> mmkv_entry st' k = unexpired now (mmkv_entry st k)
           \<and> mmkv_get st' k t =
               (case mmkv_entry st k of
                  None \<Rightarrow> mmkv_get st k t
                | Some e \<Rightarrow> if isExpired now e then Inr miss else mmkv_get st k t)"
    using st'(1) by blast
qed

theorem cleanUp_removes_expired_witness:
  "store_inv exDeep \<and> list_all (\<lambda>(x, v). readable v) exFlat
   \<and> mem_get exDeep [SegStr ''a'', SegStr ''b''] 1500 = \<lparr> rdata = Str ''2'', stale = True \<rparr>
   \<and> mem_get (mem_cleanUp exDeep 1500) [SegStr ''a'', SegStr ''b''] 1500 = miss
   \<and> mem_get (mem_cleanUp exDeep 1500) [SegStr ''a'', SegStr ''b'', SegStr ''c''] 1500
       = \<lparr> rdata = Str ''3'', stale = True \<rparr>
   \<and> fst (mmkv_cleanUp exFlat 1500) = None
   \<and> mmkv_get (snd (mmkv_cleanUp exFlat 1500)) [SegStr ''a'', SegStr ''b''] 1500 = Inr miss
   \<and> mmkv_get (snd (mmkv_cleanUp exFlat 1500)) [SegStr ''a'', SegStr ''b'', SegStr ''c''] 1500
       = Inr \<lparr> rdata = Str ''3'', stale = True \<rparr>"
proof -
  have h1: "store_inv exDeep" by (simp add: exDeep_def marker_def)
  have h2: "list_all (\<lambda>(x, v). readable v) exFlat" by (simp add: exFlat_def readable_def)
  have e1: "mem_entry exDeep [SegStr ''a'', SegStr ''b'']
      = Some \<lparr> data = Str ''2'', timestamp = 0, staleTime = 1000, cacheTime = 1000 \<rparr>"
    by (simp add: mem_entry_def exDeep_def marker_def)
  have e2: "mem_entry exDeep [SegStr ''a'', SegStr ''b'', SegStr ''c'']
      = Some \<lparr> data = Str ''3'', timestamp = 0, staleTime = 1000, cacheTime = 2000 \<rparr>"
    by (simp add: mem_entry_def exDeep_def marker_def)
  have f1: "mmkv_entry exFlat [SegStr ''a'', SegStr ''b'']
      = Some \<lparr> data = Str ''2'', timestamp = 0, staleTime = 1000, cacheTime = 1000 \<rparr>"
    by (simp add: mmkv_entry_def exFlat_def keyToString_def segString_def)
  have f2: "mmkv_entry exFlat [SegStr ''a'', SegStr ''b'', SegStr ''c'']
      = Some \<lparr> data = Str ''3'', timestamp = 0, staleTime = 1000, cacheTime = 2000 \<rparr>"
    by (simp add: mmkv_entry_def exFlat_def keyToString_def segString_def)
  have g1: "mem_get exDeep [SegStr ''a'', SegStr ''b''] 1500 = \<lparr> rdata = Str ''2'', stale = True \<rparr>"
    by (simp add: mem_get_def exDeep_def marker_def isStale_def)
  have g2: "mem_get exDeep [SegStr ''a'', SegStr ''b'', SegStr ''c''] 1500 = \<lparr> rdata = Str ''3'', stale = True \<rparr>"
    by (simp add: mem_get_def exDeep_def marker_def isStale_def)
  have g3: "mmkv_get exFlat [SegStr ''a'', SegStr ''b'', SegStr ''c''] 1500 = Inr \<lparr> rdata = Str ''3'', stale = True \<rparr>"
    by (simp add: mmkv_get_def exFlat_def keyToString_def segString_def emptyText_def JSON_parse_def isStale_def)
  from cleanUp_removes_expired [of exDeep 1500 "[SegStr ''a'', SegStr ''b'']" 1500 exFlat] h1 h2 e1 f1
  have a: "mem_get (mem_cleanUp exDeep 1500) [SegStr ''a'', SegStr ''b''] 1500 = miss
     \<and> fst (mmkv_cleanUp exFlat 1500) = None
     \<and> mmkv_get (snd (mmkv_cleanUp exFlat 1500)) [SegStr ''a'', SegStr ''b''] 1500 = Inr miss"
    by (auto simp: isExpired_def)
  from cleanUp_removes_expired [of exDeep 1500 "[SegStr ''a'', SegStr ''b'', SegStr ''c'']" 1500 exFlat]
    h1 h2 e2 f2 g2 g3
  have b: "mem_get (mem_cleanUp exDeep 1500) [SegStr ''a'', SegStr ''b'', SegStr ''c''] 1500
       = \<lparr> rdata = Str ''3'', stale = True \<rparr>
     \<and> mmkv_get (snd (mmkv_cleanUp exFlat 1500)) [SegStr ''a'', SegStr ''b'', SegStr ''c''] 1500
       = Inr \<lparr> rdata = Str ''3'', stale = True \<rparr>"
    by (auto simp: isExpired_def)
  from h1 h2 g1 a b show ?thesis by simp
qed

text \<open>
  A flat storage whose first record is not JSON text: \<open>cleanUp\<close> throws there, and the
  expired entry behind it is still stored and still returned by \<open>get\<close>.
\<close>

theorem mmkv_cleanUp_stops_at_malformed:
  "isExpired 5000 \<lparr> data = Str ''1'', timestamp = 0, staleTime = 1000, cacheTime = 1000 \<rparr>
   \<and> mmkv_cleanUp exCorrupt 5000 = (Some SyntaxError, exCorrupt)
   \<and> mmkv_get (snd (mmkv_cleanUp exCorrupt 5000)) [SegStr ''old''] 5000
       = Inr \<lparr> rdata = Str ''1'', stale = True \<rparr>"
  by (simp add: mmkv_cleanUp_def exCorrupt_def emptyText_def JSON_parse_def isExpired_def
      mmkv_get_def keyToString_def segString_def isStale_def)

end
